theory Spec2Isabelle
  imports Main
begin

section \<open>Python string primitives used by rebuild_card_data.py\<close>

text \<open>
  A Python \<open>str\<close> is embedded as a \<open>string\<close>, one \<open>char\<close> per code point, so the
  embedding covers the code points below 256.  Case mapping is the ASCII one (on ASCII
  text it is what \<open>str.lower\<close>, \<open>str.upper\<close>, \<open>str.capitalize\<close> and \<open>re.IGNORECASE\<close>
  do); the white space of \<open>str.strip\<close>, of \<open>float\<close> and of the regular expression class
  \<open>\s\<close> is the set of code points below 256 for which \<open>str.isspace\<close> holds.
\<close>

definition isspace :: "char \<Rightarrow> bool" where
  "isspace c \<longleftrightarrow> c \<in> set [CHR 0x09, CHR 0x0A, CHR 0x0B, CHR 0x0C, CHR 0x0D,
     CHR 0x1C, CHR 0x1D, CHR 0x1E, CHR 0x1F, CHR 0x20, CHR 0x85, CHR 0xA0]"

definition isdigit :: "char \<Rightarrow> bool" where
  "isdigit c \<longleftrightarrow> c \<in> set ''0123456789''"

definition lower_char :: "char \<Rightarrow> char" where
  "lower_char c = (let n = (of_char c :: nat) in
     if 65 \<le> n \<and> n \<le> 90 then char_of (n + 32) else c)"

definition upper_char :: "char \<Rightarrow> char" where
  "upper_char c = (let n = (of_char c :: nat) in
     if 97 \<le> n \<and> n \<le> 122 then char_of (n - 32) else c)"

definition py_lower :: "string \<Rightarrow> string" where
  "py_lower s = map lower_char s"

definition py_upper :: "string \<Rightarrow> string" where
  "py_upper s = map upper_char s"

text \<open>\<open>s.capitalize()\<close>: first character upper case, the rest lower case.\<close>

fun capitalize :: "string \<Rightarrow> string" where
  "capitalize [] = []"
| "capitalize (c # cs) = upper_char c # map lower_char cs"

text \<open>\<open>s.strip()\<close>: white space removed at both ends.\<close>

definition py_strip :: "string \<Rightarrow> string" where
  "py_strip s = rev (dropWhile isspace (rev (dropWhile isspace s)))"

text \<open>\<open>s.startswith(p)\<close>.\<close>

definition startswith :: "string \<Rightarrow> string \<Rightarrow> bool" where
  "startswith s p \<longleftrightarrow> take (length p) s = p"

text \<open>\<open>sub in s\<close>: \<open>sub\<close> occurs in \<open>s\<close> as a contiguous substring.\<close>

fun contains :: "string \<Rightarrow> string \<Rightarrow> bool" where
  "contains [] sub = (sub = [])"
| "contains (c # cs) sub = (startswith (c # cs) sub \<or> contains cs sub)"

text \<open>\<open>sep.join(xs)\<close>.\<close>

fun join :: "string \<Rightarrow> string list \<Rightarrow> string" where
  "join sep [] = []"
| "join sep [x] = x"
| "join sep (x # y # ys) = x @ sep @ join sep (y # ys)"

section \<open>extract_keywords\<close>

definition known_keywords :: "string list" where
  "known_keywords =
    [''Accelerate'', ''Action'', ''Reaction'', ''Hidden'', ''Vision'', ''Legion'',
     ''Assault'', ''Defender'', ''Elusive'', ''Fearsome'', ''Mighty'', ''Temporary'',
     ''Quick Attack'', ''Overwhelm'', ''Lifesteal'', ''Barrier'', ''Spellshield'',
     ''Regeneration'', ''Tough'', ''Challenger'', ''Scout'', ''Fury'', ''Attune'',
     ''Deep'', ''Ephemeral'', ''Last Breath'', ''Nexus Strike'', ''Play'', ''Strike'',
     ''Support'', ''Vulnerable'', ''Capture'', ''Frostbite'', ''Immobile'', ''Recall'',
     ''Silence'', ''Stun'', ''Obliterate'', ''Rally'', ''Enlightened'', ''Reputation'',
     ''Lurk'', ''Predict'', ''Invoke'', ''Behold'', ''Augment'', ''Impact'', ''Formidable'',
     ''Equipment'', ''Attach'', ''Hallowed'', ''Evolve'', ''Husk'', ''Boon'', ''Flow'']"

text \<open>
  \<open>re.findall(r'\[([^\]]+)\]', text)\<close>: the scan goes left to right; at an opening
  bracket the class \<open>[^\]]+\<close> takes the longest run of characters other than the closing
  bracket (opening brackets and line breaks included), which must be non-empty and
  followed by a closing bracket.  The group is the run, and the scan resumes after the
  closing bracket; where the attempt fails the scan moves one character on.
\<close>

function findall_brackets :: "string \<Rightarrow> string list" where
  "findall_brackets [] = []"
| "findall_brackets (c # cs) =
     (if c = CHR ''[''
      then (let run = takeWhile (\<lambda>x. x \<noteq> CHR '']'') cs;
                rest = dropWhile (\<lambda>x. x \<noteq> CHR '']'') cs
            in if run \<noteq> [] \<and> rest \<noteq> []
               then run # findall_brackets (tl rest)
               else findall_brackets cs)
      else findall_brackets cs)"
  by pat_completeness auto

termination
proof (relation "measure length")
  show "wf (measure length)" by simp
next
  fix c :: char and cs run rest
  assume "rest = dropWhile (\<lambda>x. x \<noteq> CHR '']'') cs"
  moreover have "length (dropWhile (\<lambda>x. x \<noteq> CHR '']'') cs) \<le> length cs"
    by (rule length_dropWhile_le)
  ultimately show "(tl rest, c # cs) \<in> measure length" by simp
qed simp_all

text \<open>
  \<open>re.sub(r'\s+\d+$', '', kw)\<close>.  The anchor \<open>$\<close> holds at the end of the string and
  before a line break that ends the string.  The digits of a match are the whole final
  run of digits, preceded by white space; the leftmost match starts where that run of
  white space starts.
\<close>

definition cut_num_suffix :: "string \<Rightarrow> string option" where
  "cut_num_suffix s =
     (let r = rev s;
          ds = takeWhile isdigit r;
          p = dropWhile isdigit r
      in if ds \<noteq> [] \<and> p \<noteq> [] \<and> isspace (hd p)
         then Some (rev (dropWhile isspace p)) else None)"

definition re_sub_num_suffix :: "string \<Rightarrow> string" where
  "re_sub_num_suffix kw =
     (case cut_num_suffix kw of
        Some b \<Rightarrow> b
      | None \<Rightarrow>
          (if kw \<noteq> [] \<and> last kw = CHR 0x0A
           then (case cut_num_suffix (butlast kw) of
                   Some b \<Rightarrow> b @ [CHR 0x0A]
                 | None \<Rightarrow> kw)
           else kw))"

text \<open>The body of the loop over the bracket matches.\<close>

definition bracket_step :: "string list \<Rightarrow> string \<Rightarrow> string list" where
  "bracket_step keywords m =
     (let kw = py_strip m;
          base_kw = re_sub_num_suffix kw
      in if base_kw \<noteq> [] \<and> base_kw \<notin> set keywords
         then keywords @ [kw] else keywords)"

definition bracket_scan :: "string list \<Rightarrow> string list" where
  "bracket_scan ms = foldl bracket_step [] ms"

text \<open>
  \<open>re.search(pattern, text, re.IGNORECASE)\<close> for the pattern
  \<open>\[K(?:\s+\d+)?\]|\(K\<close>, where \<open>K\<close> is the escaped keyword, a literal.
  \<open>ci_prefix\<close> matches the literal without regard to case; \<open>num_tail\<close> matches
  \<open>(?:\s+\d+)?\]\<close>.
\<close>

definition ci_prefix :: "string \<Rightarrow> string \<Rightarrow> bool" where
  "ci_prefix kw s \<longleftrightarrow>
     length kw \<le> length s \<and> py_lower (take (length kw) s) = py_lower kw"

definition num_tail :: "string \<Rightarrow> bool" where
  "num_tail r =
     (if r \<noteq> [] \<and> hd r = CHR '']'' then True
      else (let ws = takeWhile isspace r;
                r1 = dropWhile isspace r;
                ds = takeWhile isdigit r1;
                r2 = dropWhile isdigit r1
            in ws \<noteq> [] \<and> ds \<noteq> [] \<and> r2 \<noteq> [] \<and> hd r2 = CHR '']''))"

definition match_here :: "string \<Rightarrow> string \<Rightarrow> bool" where
  "match_here kw s =
     (case s of
        [] \<Rightarrow> False
      | c # r \<Rightarrow>
          (c = CHR ''['' \<and> ci_prefix kw r \<and> num_tail (drop (length kw) r))
          \<or> (c = CHR ''('' \<and> ci_prefix kw r))"

fun re_search :: "string \<Rightarrow> string \<Rightarrow> bool" where
  "re_search kw [] = False"
| "re_search kw (c # cs) = (match_here kw (c # cs) \<or> re_search kw cs)"

text \<open>The body of the loop over the known keywords.\<close>

definition known_step :: "string \<Rightarrow> string list \<Rightarrow> string \<Rightarrow> string list" where
  "known_step text keywords kw =
     (if contains (py_lower text) (py_lower kw) \<and> kw \<notin> set keywords
      then (if re_search kw text
            then (if kw \<notin> set keywords then keywords @ [kw] else keywords)
            else keywords)
      else keywords)"

definition extract_keywords :: "string \<Rightarrow> string list" where
  "extract_keywords text =
     foldl (known_step text) (bracket_scan (findall_brackets text)) known_keywords"

section \<open>The builtin float\<close>

text \<open>
  \<open>float(s)\<close> on a string: white space is stripped, then the whole rest must be an
  optional sign followed by \<open>inf\<close>, \<open>infinity\<close> or \<open>nan\<close> in any letter case, or by a
  decimal number with an optional exponent, where single underscores may stand between
  digits.  Anything else raises \<open>ValueError\<close>, the value \<open>None\<close> here.  A decimal is kept
  as its sign, its digits and its power of ten: \<open>PyNum neg m e\<close> stands for the double
  that \<open>m * 10 ^ e\<close>, negated when \<open>neg\<close>, is rounded to.  The rounding is not part
  of the embedding; \<open>PyNan\<close> and \<open>PyInf\<close> are the results of the literals.
\<close>

datatype pyfloat = PyNan | PyInf bool | PyNum bool nat int

text \<open>The rest of a digit part, after a digit: \<open>(["_"] digit)*\<close>.\<close>

fun more_digits :: "string \<Rightarrow> string \<times> string" where
  "more_digits [] = ([], [])"
| "more_digits (c # cs) =
     (if isdigit c then (case more_digits cs of (ds, r) \<Rightarrow> (c # ds, r))
      else if c = CHR ''_'' \<and> cs \<noteq> [] \<and> isdigit (hd cs) then more_digits cs
      else ([], c # cs))"

text \<open>An optional digit part: its digits, and what follows it.\<close>

definition digitpart :: "string \<Rightarrow> string \<times> string" where
  "digitpart s =
     (case s of
        [] \<Rightarrow> ([], [])
      | c # cs \<Rightarrow> if isdigit c then (case more_digits cs of (ds, r) \<Rightarrow> (c # ds, r))
                  else ([], s))"

definition digits_value :: "string \<Rightarrow> nat" where
  "digits_value ds = foldl (\<lambda>a c. 10 * a + (of_char c - 48)) 0 ds"

definition take_sign :: "string \<Rightarrow> bool \<times> string" where
  "take_sign s =
     (case s of
        [] \<Rightarrow> (False, [])
      | c # cs \<Rightarrow> if c = CHR ''-'' then (True, cs)
                  else if c = CHR ''+'' then (False, cs)
                  else (False, s))"

definition parse_exponent :: "string \<Rightarrow> int option" where
  "parse_exponent r =
     (case r of
        [] \<Rightarrow> Some 0
      | c # cs \<Rightarrow>
          if c = CHR ''e'' \<or> c = CHR ''E''
          then (case take_sign cs of (eneg, r1) \<Rightarrow>
                  (case digitpart r1 of (ed, r2) \<Rightarrow>
                     if ed \<noteq> [] \<and> r2 = []
                     then Some (if eneg then - int (digits_value ed) else int (digits_value ed))
                     else None))
          else None)"

definition parse_number :: "bool \<Rightarrow> string \<Rightarrow> pyfloat option" where
  "parse_number neg s =
     (case digitpart s of (ip, r1) \<Rightarrow>
        if r1 \<noteq> [] \<and> hd r1 = CHR ''.''
        then (case digitpart (tl r1) of (fp, r2) \<Rightarrow>
                if ip = [] \<and> fp = [] then None
                else (case parse_exponent r2 of
                        None \<Rightarrow> None
                      | Some e \<Rightarrow> Some (PyNum neg (digits_value (ip @ fp)) (e - int (length fp)))))
        else if ip = [] then None
        else (case parse_exponent r1 of
                None \<Rightarrow> None
              | Some e \<Rightarrow> Some (PyNum neg (digits_value ip) e)))"

definition py_float :: "string \<Rightarrow> pyfloat option" where
  "py_float s =
     (case take_sign (py_strip s) of (neg, r) \<Rightarrow>
        if py_lower r = ''inf'' \<or> py_lower r = ''infinity'' then Some (PyInf neg)
        else if py_lower r = ''nan'' then Some PyNan
        else parse_number neg r)"

section \<open>parse_csv_row\<close>

datatype power_value = PowerStr string | PowerNum pyfloat

record card_stats =
  energy_val :: "pyfloat option"
  might_val :: "pyfloat option"
  power_val :: "power_value option"

record card_rules_text =
  raw :: string
  keyword_list :: "string list"

text \<open>
  The dictionary built by \<open>parse_csv_row\<close>.  The keys \<open>supertypes\<close>, \<open>tags\<close> and
  \<open>image_url\<close> are optional: \<open>None\<close> is a dictionary without the key.
\<close>

record card_data =
  card_id :: string
  name :: string
  rarity :: string
  domain_str :: string
  type_line :: string
  stats :: card_stats
  rules_text :: card_rules_text
  supertypes :: "string option"
  tags :: "string list option"
  image_url :: "string option"

type_synonym row = "string \<rightharpoonup> string"

text \<open>\<open>row.get(k, '')\<close>.\<close>

definition row_get :: "row \<Rightarrow> string \<Rightarrow> string" where
  "row_get row k = (case row k of None \<Rightarrow> [] | Some v \<Rightarrow> v)"

text \<open>The truth value of \<open>row.get(k)\<close>: the key is there and its string is not empty.\<close>

definition row_truthy :: "row \<Rightarrow> string \<Rightarrow> bool" where
  "row_truthy row k = (case row k of None \<Rightarrow> False | Some v \<Rightarrow> v \<noteq> [])"

text \<open>\<open>s.split(sep)\<close> for a separator of one character.\<close>

fun split_on :: "char \<Rightarrow> string \<Rightarrow> string list" where
  "split_on sep [] = [[]]"
| "split_on sep (x # xs) =
     (if x = sep then [] # split_on sep xs
      else (case split_on sep xs of
              [] \<Rightarrow> [[x]]
            | y # ys \<Rightarrow> (x # y) # ys))"

definition get_domain :: "row \<Rightarrow> string \<Rightarrow> string" where
  "get_domain row k =
     (if row_truthy row k then capitalize (py_strip (row_get row k)) else [])"

definition not_nan :: "string \<Rightarrow> bool" where
  "not_nan s \<longleftrightarrow> s \<noteq> [] \<and> py_lower s \<notin> set [[], ''nan'']"

definition build_domain :: "row \<Rightarrow> string" where
  "build_domain row =
     (let domain1 = get_domain row ''Domain 1'';
          domain2 = get_domain row ''Domain 2'';
          domains = (if not_nan domain1 then [domain1] else [])
                    @ (if not_nan domain2 then [domain2] else [])
      in if domains \<noteq> [] then join '', '' domains else ''Colorless'')"

definition subtype_keys :: "string list" where
  "subtype_keys = [''Subtype 1'', ''Subtype 2'', ''Subtype 3'', ''Subtype 4'', ''Subtype 5'']"

definition get_subtypes :: "row \<Rightarrow> string list" where
  "get_subtypes row =
     foldl (\<lambda>subtypes k.
              let subtype = py_strip (row_get row k)
              in if not_nan subtype then subtypes @ [py_lower subtype] else subtypes)
       [] subtype_keys"

definition build_type_line :: "row \<Rightarrow> string" where
  "build_type_line row =
     (let t = py_lower (py_strip (row_get row ''types''));
          card_type = (if t = [] then ''unit'' else t);
          subtypes = get_subtypes row
      in if subtypes \<noteq> [] then card_type @ '' - '' @ join '', '' subtypes else card_type)"

text \<open>The coercion of \<open>Energy\<close> and of \<open>Might\<close>, with its \<open>except ValueError\<close>.\<close>

definition parse_stat :: "string \<Rightarrow> pyfloat option" where
  "parse_stat v =
     (if v \<noteq> [] \<and> v \<notin> set [[], ''-'']
      then (case py_float v of Some x \<Rightarrow> Some x | None \<Rightarrow> None)
      else None)"

text \<open>\<open>s.replace('C', '')\<close>.\<close>

definition remove_C :: "string \<Rightarrow> string" where
  "remove_C s = filter (\<lambda>c. c \<noteq> CHR ''C'') s"

definition parse_power :: "string \<Rightarrow> power_value option" where
  "parse_power p =
     (if p \<noteq> [] \<and> p \<notin> set [[], ''-'']
      then (if remove_C (py_upper p) = []
            then Some (PowerStr (py_upper p))
            else (case py_float p of
                    Some x \<Rightarrow> Some (PowerNum x)
                  | None \<Rightarrow> Some (PowerStr p)))
      else None)"

definition parse_tags :: "string \<Rightarrow> string list" where
  "parse_tags t = map py_strip (filter (\<lambda>x. py_strip x \<noteq> []) (split_on CHR '','' t))"

definition parse_csv_row :: "row \<Rightarrow> card_data option" where
  "parse_csv_row row =
     (let nm = py_strip (row_get row ''Name'') in
      if nm = [] then None
      else
        let cid = py_strip (row_get row ''Collector Number'') in
        if cid = [] then None
        else
          let sup = py_strip (row_get row ''supertypes'');
              description = py_strip (row_get row ''Description'');
              tgs = py_strip (row_get row ''Tags'')
          in Some \<lparr>
               card_id = cid,
               name = nm,
               rarity = py_lower (py_strip (row_get row ''Rarity'')),
               domain_str = build_domain row,
               type_line = build_type_line row,
               stats = \<lparr>
                 energy_val = parse_stat (py_strip (row_get row ''Energy'')),
                 might_val = parse_stat (py_strip (row_get row ''Might'')),
                 power_val = parse_power (py_strip (row_get row ''Power'')) \<rparr>,
               rules_text = \<lparr>
                 raw = description,
                 keyword_list = extract_keywords description \<rparr>,
               supertypes = (if not_nan sup then Some (py_lower sup) else None),
               tags = (if not_nan tgs then Some (parse_tags tgs) else None),
               image_url = None \<rparr>)"

section \<open>load_images and the loop of main\<close>

definition absolute_url :: "string \<Rightarrow> string" where
  "absolute_url u = (if startswith u ''/'' then ''https://riftdecks.com'' @ u else u)"

definition image_step :: "(string \<rightharpoonup> string) \<Rightarrow> row \<Rightarrow> (string \<rightharpoonup> string)" where
  "image_step images row =
     (let nm = py_strip (row_get row ''Name'');
          u = py_strip (row_get row ''Card Image URL'')
      in if nm \<noteq> [] \<and> u \<noteq> [] then images(nm \<mapsto> absolute_url u) else images)"

definition load_images :: "row list \<Rightarrow> (string \<rightharpoonup> string)" where
  "load_images rows = foldl image_step Map.empty rows"

definition attach_image :: "(string \<rightharpoonup> string) \<Rightarrow> card_data \<Rightarrow> card_data" where
  "attach_image images crd =
     (case images (name crd) of
        Some u \<Rightarrow> crd\<lparr>image_url := Some u\<rparr>
      | None \<Rightarrow> crd)"

text \<open>The loop of \<open>main\<close> over the rows of the primary table.\<close>

definition collect_step :: "(string \<rightharpoonup> string) \<Rightarrow> card_data list \<Rightarrow> row \<Rightarrow> card_data list" where
  "collect_step images cards row =
     (case parse_csv_row row of
        None \<Rightarrow> cards
      | Some crd \<Rightarrow> cards @ [attach_image images crd])"

definition collect_cards :: "(string \<rightharpoonup> string) \<Rightarrow> row list \<Rightarrow> card_data list" where
  "collect_cards images rows = foldl (collect_step images) [] rows"

section \<open>Definitions that follow the wording of the specification\<close>

text \<open>
  The bracket scan as the specification words it: the inner text of a span is the
  candidate as it stands, and it is added when it is not yet in the list, compared as a
  whole string.
\<close>

definition spec_bracket_step :: "string list \<Rightarrow> string \<Rightarrow> string list" where
  "spec_bracket_step acc m = (if m \<notin> set acc then acc @ [m] else acc)"

definition spec_bracket_scan :: "string list \<Rightarrow> string list" where
  "spec_bracket_scan ms = foldl spec_bracket_step [] ms"

text \<open>
  The derivation of the domain string, the coercion of \<open>Energy\<close> and \<open>Might\<close> and the
  coercion of \<open>Power\<close>, as the specification words them.
\<close>

definition spec_domain :: "string \<Rightarrow> string \<Rightarrow> string" where
  "spec_domain v1 v2 =
     (let present = filter (\<lambda>d. d \<noteq> [] \<and> py_lower d \<noteq> ''nan'')
                      [capitalize (py_strip v1), capitalize (py_strip v2)]
      in if present = [] then ''Colorless'' else join '', '' present)"

definition spec_stat :: "string \<Rightarrow> pyfloat option" where
  "spec_stat v = (if v = [] \<or> v = ''-'' then None else py_float v)"

definition spec_power :: "string \<Rightarrow> power_value option" where
  "spec_power p =
     (if p = [] \<or> p = ''-'' then None
      else if list_all (\<lambda>c. c = CHR ''C'') (py_upper p) then Some (PowerStr (py_upper p))
      else (case py_float p of
              Some x \<Rightarrow> Some (PowerNum x)
            | None \<Rightarrow> Some (PowerStr p)))"

section \<open>Auxiliary facts about the keyword scans\<close>

lemma contains_append: "contains (a @ b @ c) b"
proof (induction a)
  case Nil
  have h: "startswith (b @ c) b" by (simp add: startswith_def)
  show ?case
  proof (cases "b @ c")
    case Nil
    then show ?thesis by simp
  next
    case (Cons y ys)
    with h show ?thesis by simp
  qed
next
  case (Cons x a)
  then show ?case by simp
qed

lemma contains_decompose: "contains s sub \<Longrightarrow> \<exists>a c. s = a @ sub @ c"
proof (induction s)
  case Nil
  then show ?case by simp
next
  case (Cons x s)
  show ?case
  proof (cases "startswith (x # s) sub")
    case True
    then have "x # s = [] @ sub @ drop (length sub) (x # s)"
      unfolding startswith_def by (metis append_Nil append_take_drop_id)
    then show ?thesis by blast
  next
    case False
    with Cons.prems have "contains s sub" by simp
    then obtain a c where "s = a @ sub @ c" using Cons.IH by blast
    then have "x # s = (x # a) @ sub @ c" by simp
    then show ?thesis by blast
  qed
qed

lemma re_search_append: "re_search kw s \<Longrightarrow> re_search kw (a @ s)"
  by (induction a) auto

lemma ci_prefix_append:
  "py_lower k' = py_lower kw \<Longrightarrow> ci_prefix kw (k' @ r)"
proof -
  assume h: "py_lower k' = py_lower kw"
  then have "length k' = length kw" unfolding py_lower_def by (rule map_eq_imp_length_eq)
  with h show ?thesis by (simp add: ci_prefix_def)
qed

lemma re_search_bracket:
  assumes "py_lower k' = py_lower kw"
  shows "re_search kw (a @ CHR ''['' # k' @ CHR '']'' # c)"
proof -
  have len: "length k' = length kw"
    using assms unfolding py_lower_def by (rule map_eq_imp_length_eq)
  have "match_here kw (CHR ''['' # k' @ CHR '']'' # c)"
    using ci_prefix_append[OF assms] len by (simp add: match_here_def num_tail_def)
  then have "re_search kw (CHR ''['' # k' @ CHR '']'' # c)" by simp
  then show ?thesis by (rule re_search_append)
qed

lemma re_search_paren:
  assumes "py_lower k' = py_lower kw"
  shows "re_search kw (a @ CHR ''('' # k' @ c)"
proof -
  have "match_here kw (CHR ''('' # k' @ c)"
    using ci_prefix_append[OF assms] by (simp add: match_here_def)
  then have "re_search kw (CHR ''('' # k' @ c)" by simp
  then show ?thesis by (rule re_search_append)
qed

lemma contains_lower_inner:
  assumes "py_lower k' = py_lower kw"
  shows "contains (py_lower (a @ x # k' @ c)) (py_lower kw)"
proof -
  have "py_lower (a @ x # k' @ c) = (py_lower a @ [lower_char x]) @ py_lower kw @ py_lower c"
    using assms by (simp add: py_lower_def)
  then show ?thesis by (simp only: contains_append)
qed

lemma known_step_cases:
  "known_step text acc kw = acc \<or> (known_step text acc kw = acc @ [kw] \<and> kw \<notin> set acc)"
  by (simp add: known_step_def)

lemma known_scan_count_in:
  "k \<in> set acc \<Longrightarrow> count_list (foldl (known_step text) acc kws) k = count_list acc k"
proof (induction kws arbitrary: acc)
  case Nil
  then show ?case by simp
next
  case (Cons kw kws)
  from known_step_cases[of "text" acc kw] show ?case
  proof
    assume "known_step text acc kw = acc"
    then show ?thesis using Cons by simp
  next
    assume h: "known_step text acc kw = acc @ [kw] \<and> kw \<notin> set acc"
    with Cons.prems have "kw \<noteq> k" by auto
    moreover have "k \<in> set (acc @ [kw])" using Cons.prems by simp
    ultimately show ?thesis using h Cons.IH[of "acc @ [kw]"] by simp
  qed
qed

lemma known_scan_count_notin:
  "k \<notin> set acc \<Longrightarrow>
   count_list (foldl (known_step text) acc kws) k =
     (if k \<in> set kws \<and> contains (py_lower text) (py_lower k) \<and> re_search k text
      then 1 else 0)"
proof (induction kws arbitrary: acc)
  case Nil
  then show ?case by (simp add: count_list_0_iff)
next
  case (Cons kw kws)
  show ?case
  proof (cases "kw = k")
    case True
    show ?thesis
    proof (cases "contains (py_lower text) (py_lower k) \<and> re_search k text")
      case c: True
      then have "known_step text acc kw = acc @ [k]"
        using True Cons.prems by (simp add: known_step_def)
      moreover have "count_list (foldl (known_step text) (acc @ [k]) kws) k = count_list (acc @ [k]) k"
        by (rule known_scan_count_in) simp
      ultimately show ?thesis using c True Cons.prems by (simp add: count_list_0_iff)
    next
      case c: False
      then have "known_step text acc kw = acc"
        using True by (auto simp add: known_step_def)
      then show ?thesis using c Cons.IH[OF Cons.prems] by auto
    qed
  next
    case False
    from known_step_cases[of "text" acc kw]
    have "k \<notin> set (known_step text acc kw)" using False Cons.prems by auto
    from Cons.IH[OF this] show ?thesis using False by auto
  qed
qed

lemma bracket_scan_count:
  "re_sub_num_suffix k = k \<Longrightarrow> count_list acc k \<le> 1 \<Longrightarrow>
   count_list (foldl bracket_step acc ms) k \<le> 1"
proof (induction ms arbitrary: acc)
  case Nil
  then show ?case by simp
next
  case (Cons m ms)
  have "count_list (bracket_step acc m) k \<le> 1"
  proof (cases "py_strip m = k")
    case True
    then show ?thesis using Cons.prems by (auto simp add: bracket_step_def count_list_0_iff)
  next
    case False
    then show ?thesis using Cons.prems by (auto simp add: bracket_step_def Let_def)
  qed
  from Cons.IH[OF Cons.prems(1) this] show ?case by simp
qed

lemma quick_attack_known: "''Quick Attack'' \<in> set known_keywords"
  by (simp add: known_keywords_def)

lemma quick_attack_base: "re_sub_num_suffix ''Quick Attack'' = ''Quick Attack''"
  by code_simp

lemma known_scan_prefix: "\<exists>ys. foldl (known_step text) acc kws = acc @ ys"
proof (induction kws arbitrary: acc)
  case Nil
  then show ?case by simp
next
  case (Cons kw kws)
  from known_step_cases[of "text" acc kw] show ?case
  proof
    assume "known_step text acc kw = acc"
    then show ?thesis using Cons.IH[of acc] by simp
  next
    assume h: "known_step text acc kw = acc @ [kw] \<and> kw \<notin> set acc"
    from Cons.IH[of "acc @ [kw]"] obtain ys
      where "foldl (known_step text) (acc @ [kw]) kws = (acc @ [kw]) @ ys" by blast
    then have "foldl (known_step text) acc (kw # kws) = acc @ (kw # ys)" using h by simp
    then show ?thesis by blast
  qed
qed

section \<open>Auxiliary facts about the row parser and the image index\<close>

lemma isspace_lower_char: "isspace c \<Longrightarrow> lower_char c = c"
  by (auto simp add: isspace_def lower_char_def)

lemma lower_char_sign: "lower_char CHR ''-'' = CHR ''-''" "lower_char CHR ''+'' = CHR ''+''"
  by (simp_all add: lower_char_def)

lemma py_strip_no_space:
  assumes "v \<noteq> []" "\<not> isspace (hd v)" "\<not> isspace (last v)"
  shows "py_strip v = v"
proof -
  from assms(1,2) have "dropWhile isspace v = v" by (cases v) simp_all
  moreover have "rev v \<noteq> []" "\<not> isspace (hd (rev v))" using assms(1,3) by (simp_all add: hd_rev)
  then have "dropWhile isspace (rev v) = rev v" by (cases "rev v") simp_all
  ultimately show ?thesis by (simp add: py_strip_def)
qed

lemma py_strip_Nil: "py_strip [] = []"
  by (simp add: py_strip_def)

lemma py_float_non_finite:
  assumes "v \<noteq> []" and "\<not> isspace (lower_char (hd v))" and "\<not> isspace (lower_char (last v))"
    and "lower_char (hd v) \<noteq> CHR ''-''" and "lower_char (hd v) \<noteq> CHR ''+''"
    and "py_lower v = ''nan'' \<or> py_lower v = ''inf'' \<or> py_lower v = ''infinity''"
  shows "\<exists>x. py_float v = Some x \<and> (x = PyNan \<or> x = PyInf False)"
proof -
  have "\<not> isspace (hd v)" "\<not> isspace (last v)"
    using assms(2,3) isspace_lower_char by metis+
  with assms(1) have s: "py_strip v = v" by (rule py_strip_no_space)
  have "hd v \<noteq> CHR ''-''" "hd v \<noteq> CHR ''+''"
    using assms(4,5) lower_char_sign by metis+
  with assms(1) have t: "take_sign v = (False, v)"
    by (cases v) (simp_all add: take_sign_def)
  show ?thesis using assms(6) by (auto simp add: py_float_def s t)
qed

lemma py_float_lower_non_finite:
  assumes "py_lower v = ''nan'' \<or> py_lower v = ''inf'' \<or> py_lower v = ''infinity''"
  shows "\<exists>x. py_float v = Some x \<and> (x = PyNan \<or> x = PyInf False)"
proof -
  from assms have ne: "v \<noteq> []" by (auto simp add: py_lower_def)
  then have h: "lower_char (hd v) = hd (py_lower v)"
    and l: "lower_char (last v) = last (py_lower v)"
    by (simp_all add: py_lower_def hd_map last_map)
  have "\<not> isspace (hd (py_lower v))" "\<not> isspace (last (py_lower v))"
    "hd (py_lower v) \<noteq> CHR ''-''" "hd (py_lower v) \<noteq> CHR ''+''"
    using assms by (auto simp add: isspace_def)
  then show ?thesis using py_float_non_finite[OF ne] assms h l by simp
qed

lemma get_domain_eq: "get_domain row k = capitalize (py_strip (row_get row k))"
  by (simp add: get_domain_def row_truthy_def row_get_def py_strip_Nil split: option.splits)

lemma not_nan_iff: "not_nan s \<longleftrightarrow> s \<noteq> [] \<and> py_lower s \<noteq> ''nan''"
  by (auto simp add: not_nan_def py_lower_def)

lemma build_domain_spec:
  "build_domain row = spec_domain (row_get row ''Domain 1'') (row_get row ''Domain 2'')"
  by (simp add: build_domain_def spec_domain_def get_domain_eq not_nan_iff Let_def)

lemma build_domain_not_empty: "build_domain row \<noteq> []"
  by (auto simp add: build_domain_def not_nan_iff Let_def)

lemma parse_stat_spec: "parse_stat v = spec_stat v"
  by (simp add: parse_stat_def spec_stat_def split: option.splits)

lemma remove_C_empty: "remove_C u = [] \<longleftrightarrow> list_all (\<lambda>c. c = CHR ''C'') u"
  by (simp add: remove_C_def filter_empty_conv list_all_iff)

lemma parse_power_spec: "parse_power p = spec_power p"
  by (simp add: parse_power_def spec_power_def remove_C_empty)

lemma parse_csv_row_Some:
  assumes "parse_csv_row row = Some crd"
  shows "card_id crd = py_strip (row_get row ''Collector Number'')"
    and "name crd = py_strip (row_get row ''Name'')"
    and "domain_str crd = build_domain row"
    and "type_line crd = build_type_line row"
    and "energy_val (stats crd) = parse_stat (py_strip (row_get row ''Energy''))"
    and "might_val (stats crd) = parse_stat (py_strip (row_get row ''Might''))"
    and "power_val (stats crd) = parse_power (py_strip (row_get row ''Power''))"
    and "supertypes crd =
           (if not_nan (py_strip (row_get row ''supertypes''))
            then Some (py_lower (py_strip (row_get row ''supertypes''))) else None)"
    and "tags crd =
           (if not_nan (py_strip (row_get row ''Tags''))
            then Some (parse_tags (py_strip (row_get row ''Tags''))) else None)"
    and "image_url crd = None"
  using assms by (auto simp add: parse_csv_row_def Let_def split: if_splits)

lemma parse_csv_row_None_iff:
  "parse_csv_row row = None \<longleftrightarrow>
     py_strip (row_get row ''Name'') = [] \<or> py_strip (row_get row ''Collector Number'') = []"
  by (simp add: parse_csv_row_def Let_def)

lemma lower_upper_char: "lower_char (upper_char c) = lower_char c"
  by (auto simp add: lower_char_def upper_char_def Let_def)

lemma lower_lower_char: "lower_char (lower_char c) = lower_char c"
  by (auto simp add: lower_char_def Let_def)

lemma py_lower_capitalize: "py_lower (capitalize s) = py_lower s"
  by (cases s) (simp_all add: py_lower_def lower_upper_char lower_lower_char)

lemma subtype_scan_no_nan:
  "''nan'' \<notin> set acc \<Longrightarrow>
   ''nan'' \<notin> set (foldl (\<lambda>subtypes k.
              let subtype = py_strip (row_get row k)
              in if not_nan subtype then subtypes @ [py_lower subtype] else subtypes) acc ks)"
proof (induction ks arbitrary: acc)
  case Nil
  then show ?case by simp
next
  case (Cons k ks)
  show ?case
    unfolding foldl_Cons
    by (rule Cons.IH) (use Cons.prems in \<open>auto simp add: Let_def not_nan_iff\<close>)
qed

lemma get_subtypes_no_nan: "''nan'' \<notin> set (get_subtypes row)"
  unfolding get_subtypes_def by (rule subtype_scan_no_nan) simp

lemma image_scan_unchanged:
  "\<forall>r \<in> set post. py_strip (row_get r ''Name'') = k \<longrightarrow> py_strip (row_get r ''Card Image URL'') = []
   \<Longrightarrow> foldl image_step m post k = m k"
proof (induction post arbitrary: m)
  case Nil
  then show ?case by simp
next
  case (Cons r post)
  have "image_step m r k = m k" using Cons.prems by (auto simp add: image_step_def Let_def)
  moreover have "foldl image_step (image_step m r) post k = image_step m r k"
    by (rule Cons.IH) (use Cons.prems in simp)
  ultimately show ?case by simp
qed

lemma attach_image_fields:
  "name (attach_image images crd) = name crd"
  "image_url crd = None \<Longrightarrow> image_url (attach_image images crd) = images (name crd)"
  by (simp_all add: attach_image_def split: option.splits)

lemma collect_scan_images:
  "\<forall>crd \<in> set acc. image_url crd = images (name crd)
   \<Longrightarrow> \<forall>crd \<in> set (foldl (collect_step images) acc rows). image_url crd = images (name crd)"
proof (induction rows arbitrary: acc)
  case Nil
  then show ?case by simp
next
  case (Cons r rows)
  have "\<forall>crd \<in> set (collect_step images acc r). image_url crd = images (name crd)"
  proof (cases "parse_csv_row r")
    case None
    then show ?thesis using Cons.prems by (simp add: collect_step_def)
  next
    case (Some c)
    from parse_csv_row_Some(10)[OF Some] have "image_url c = None" .
    then show ?thesis using Some Cons.prems by (simp add: collect_step_def attach_image_fields)
  qed
  from Cons.IH[OF this] show ?case by simp
qed

section \<open>Claims about extract_keywords\<close>

text \<open>
  C6.  For every rules text that contains the substring \<open>[Quick Attack]\<close>, the list
  returned by \<open>extract_keywords\<close> holds the string \<open>Quick Attack\<close> exactly once: the
  bracket scan and the scan of the known keywords never produce a second entry.
\<close>

theorem quick_attack_once:
  assumes "contains text ''[Quick Attack]''"
  shows "count_list (extract_keywords text) ''Quick Attack'' = 1"
proof -
  from contains_decompose[OF assms] obtain a c
    where t: "text = a @ CHR ''['' # ''Quick Attack'' @ CHR '']'' # c" by auto
  have s: "re_search ''Quick Attack'' text"
    unfolding t by (rule re_search_bracket) simp
  have l: "contains (py_lower text) (py_lower ''Quick Attack'')"
    unfolding t by (rule contains_lower_inner) simp
  let ?acc = "bracket_scan (findall_brackets text)"
  have le: "count_list ?acc ''Quick Attack'' \<le> 1"
    unfolding bracket_scan_def by (rule bracket_scan_count[OF quick_attack_base]) simp
  show ?thesis
  proof (cases "''Quick Attack'' \<in> set ?acc")
    case True
    then have "count_list ?acc ''Quick Attack'' \<noteq> 0" by (simp add: count_list_0_iff)
    with le have "count_list ?acc ''Quick Attack'' = 1" by simp
    then show ?thesis
      unfolding extract_keywords_def using known_scan_count_in[OF True] by simp
  next
    case False
    show ?thesis
      unfolding extract_keywords_def
      using known_scan_count_notin[OF False, of "text" known_keywords] s l quick_attack_known
      by simp
  qed
qed

theorem quick_attack_once_witness:
  "contains ''Deal 2. [Quick Attack] [Quick Attack]'' ''[Quick Attack]''
   \<and> count_list (extract_keywords ''Deal 2. [Quick Attack] [Quick Attack]'') ''Quick Attack'' = 1"
proof -
  have h: "contains ''Deal 2. [Quick Attack] [Quick Attack]'' ''[Quick Attack]''" by code_simp
  from h quick_attack_once[OF h] show ?thesis by simp
qed

text \<open>
  C1.  The claim is that the list returned by \<open>extract_keywords\<close> never holds two equal
  entries.  The bracket scan tests the base form of a candidate (its number removed)
  against the list, while the list holds the candidates with their numbers: a numbered
  keyword that occurs twice is entered twice.  The value of the function at such a text:
\<close>

theorem extract_keywords_repeated_numbered:
  "extract_keywords ''[Assault 2][Assault 2]'' = [''Assault 2'', ''Assault 2'', ''Assault'']
   \<and> \<not> distinct (extract_keywords ''[Assault 2][Assault 2]'')"
proof -
  have "extract_keywords ''[Assault 2][Assault 2]'' = [''Assault 2'', ''Assault 2'', ''Assault'']"
    by code_simp
  then show ?thesis by simp
qed

text \<open>
  C2, as stated, fails: the candidate is not the inner text as it stands but the inner
  text stripped of white space, and the presence test is not made on the whole bracketed
  text but on its base form, so \<open>Assault 2\<close> after \<open>Assault\<close> is not added although
  the list does not hold it.
\<close>

theorem bracket_scan_counterexample:
  "findall_brackets ''[Assault][Assault 2]'' = [''Assault'', ''Assault 2'']
   \<and> ''Assault 2'' \<notin> set (bracket_scan [''Assault''])
   \<and> bracket_scan [''Assault'', ''Assault 2''] = bracket_scan [''Assault'']
   \<and> bracket_scan (findall_brackets ''[Assault][Assault 2]'')
       \<noteq> spec_bracket_scan (findall_brackets ''[Assault][Assault 2]'')
   \<and> bracket_scan (findall_brackets ''[ Fury ]'') \<noteq> ['' Fury '']"
  by code_simp

text \<open>
  C2, amended.  For every span that \<open>findall\<close> returns, with the list as it stands
  after the spans before it: the candidate is the inner text stripped of white space; it
  is not added when its base form (the candidate without a final run of white space and
  digits) is empty or is in the list; it is added at the end of the list when its base
  form is not empty and neither the base form nor the candidate is in the list.  The
  scan goes on with the remaining spans in the order found.
\<close>

theorem bracket_scan_step:
  assumes "findall_brackets text = ms @ m # rest"
  shows "(re_sub_num_suffix (py_strip m) = []
            \<or> re_sub_num_suffix (py_strip m) \<in> set (bracket_scan ms)
          \<longrightarrow> bracket_scan (ms @ [m]) = bracket_scan ms)
       \<and> (re_sub_num_suffix (py_strip m) \<noteq> []
            \<and> re_sub_num_suffix (py_strip m) \<notin> set (bracket_scan ms)
            \<and> py_strip m \<notin> set (bracket_scan ms)
          \<longrightarrow> bracket_scan (ms @ [m]) = bracket_scan ms @ [py_strip m])
       \<and> bracket_scan (findall_brackets text) = foldl bracket_step (bracket_scan (ms @ [m])) rest"
proof -
  have "bracket_scan (ms @ [m]) = bracket_step (bracket_scan ms) m"
    by (simp add: bracket_scan_def)
  moreover have "bracket_scan (ms @ m # rest) = foldl bracket_step (bracket_scan (ms @ [m])) rest"
    by (simp add: bracket_scan_def)
  ultimately show ?thesis using assms by (auto simp add: bracket_step_def Let_def)
qed

theorem bracket_scan_step_witness:
  "findall_brackets ''[Assault][Assault 2][Fury]'' = [''Assault''] @ ''Assault 2'' # [''Fury'']
   \<and> re_sub_num_suffix (py_strip ''Assault 2'') \<in> set (bracket_scan [''Assault''])
   \<and> bracket_scan ([''Assault''] @ [''Assault 2'']) = bracket_scan [''Assault'']
   \<and> re_sub_num_suffix (py_strip ''Fury'') \<noteq> []
   \<and> re_sub_num_suffix (py_strip ''Fury'') \<notin> set (bracket_scan [''Assault'', ''Assault 2''])
   \<and> py_strip ''Fury'' \<notin> set (bracket_scan [''Assault'', ''Assault 2''])
   \<and> bracket_scan ([''Assault'', ''Assault 2''] @ [''Fury''])
        = bracket_scan [''Assault'', ''Assault 2''] @ [py_strip ''Fury'']"
proof -
  have h1: "findall_brackets ''[Assault][Assault 2][Fury]'' = [''Assault''] @ ''Assault 2'' # [''Fury'']"
    by code_simp
  have h2: "findall_brackets ''[Assault][Assault 2][Fury]'' = [''Assault'', ''Assault 2''] @ ''Fury'' # []"
    by code_simp
  have p1: "re_sub_num_suffix (py_strip ''Assault 2'') \<in> set (bracket_scan [''Assault''])"
    by code_simp
  have p2: "re_sub_num_suffix (py_strip ''Fury'') \<noteq> []
     \<and> re_sub_num_suffix (py_strip ''Fury'') \<notin> set (bracket_scan [''Assault'', ''Assault 2''])
     \<and> py_strip ''Fury'' \<notin> set (bracket_scan [''Assault'', ''Assault 2''])"
    by code_simp
  from bracket_scan_step[OF h1] p1
  have c1: "bracket_scan ([''Assault''] @ [''Assault 2'']) = bracket_scan [''Assault'']"
    by blast
  from bracket_scan_step[OF h2] p2
  have c2: "bracket_scan ([''Assault'', ''Assault 2''] @ [''Fury''])
        = bracket_scan [''Assault'', ''Assault 2''] @ [py_strip ''Fury'']"
    by blast
  from h1 p1 p2 c1 c2 show ?thesis by blast
qed

text \<open>
  C9.  In the scan of the known keywords the confirming match disregards letter case,
  and its parenthesised form asks for nothing after the keyword: for a known keyword
  \<open>K\<close> that the bracket scan has not entered, a text that holds an opening parenthesis
  (or an opening bracket, with the closing bracket after the keyword) followed by \<open>K\<close>
  in any letter case makes the scan append \<open>K\<close>, once, after the entries of the
  bracket scan; so \<open>(playing\<close> yields \<open>Play\<close> and \<open>[quick attack]\<close> yields
  \<open>Quick Attack\<close> after the bracketed \<open>quick attack\<close>.
\<close>

theorem known_keyword_confirmed:
  assumes "K \<in> set known_keywords"
    and "K \<notin> set (bracket_scan (findall_brackets text))"
    and "py_lower K' = py_lower K"
    and "contains text (CHR ''('' # K') \<or> contains text (CHR ''['' # K' @ '']'')"
  shows "count_list (extract_keywords text) K = 1
       \<and> (\<exists>ys. extract_keywords text = bracket_scan (findall_brackets text) @ ys \<and> K \<in> set ys)
       \<and> extract_keywords ''(playing'' = [''Play'']
       \<and> extract_keywords ''[quick attack]'' = [''quick attack'', ''Quick Attack'']"
proof -
  have conf: "contains (py_lower text) (py_lower K) \<and> re_search K text"
    using assms(4)
  proof
    assume "contains text (CHR ''('' # K')"
    from contains_decompose[OF this] obtain a c
      where t: "text = a @ CHR ''('' # K' @ c" by auto
    show ?thesis
      unfolding t using re_search_paren[OF assms(3)] contains_lower_inner[OF assms(3)] by blast
  next
    assume "contains text (CHR ''['' # K' @ '']'')"
    from contains_decompose[OF this] obtain a c
      where t: "text = a @ CHR ''['' # K' @ CHR '']'' # c" by auto
    show ?thesis
      unfolding t using re_search_bracket[OF assms(3)] contains_lower_inner[OF assms(3)] by blast
  qed
  have cnt: "count_list (extract_keywords text) K = 1"
    unfolding extract_keywords_def
    using known_scan_count_notin[OF assms(2), of "text" known_keywords] conf assms(1) by simp
  obtain ys where ys: "extract_keywords text = bracket_scan (findall_brackets text) @ ys"
    unfolding extract_keywords_def using known_scan_prefix by blast
  have "K \<in> set (extract_keywords text)"
    using cnt count_list_0_iff[of "extract_keywords text" K] by simp
  with ys assms(2) have "K \<in> set ys" by simp
  moreover have "extract_keywords ''(playing'' = [''Play'']" by code_simp
  moreover have "extract_keywords ''[quick attack]'' = [''quick attack'', ''Quick Attack'']"
    by code_simp
  ultimately show ?thesis using cnt ys by blast
qed

theorem known_keyword_confirmed_witness:
  "''Play'' \<in> set known_keywords
   \<and> ''Play'' \<notin> set (bracket_scan (findall_brackets ''When I attack (pLAying me)''))
   \<and> py_lower ''pLAy'' = py_lower ''Play''
   \<and> contains ''When I attack (pLAying me)'' (CHR ''('' # ''pLAy'')
   \<and> count_list (extract_keywords ''When I attack (pLAying me)'') ''Play'' = 1"
proof -
  have h1: "''Play'' \<in> set known_keywords" by code_simp
  have h2: "''Play'' \<notin> set (bracket_scan (findall_brackets ''When I attack (pLAying me)''))"
    by code_simp
  have h3: "py_lower ''pLAy'' = py_lower ''Play''" by code_simp
  have h4: "contains ''When I attack (pLAying me)'' (CHR ''('' # ''pLAy'')" by code_simp
  from h4 have h4': "contains ''When I attack (pLAying me)'' (CHR ''('' # ''pLAy'')
     \<or> contains ''When I attack (pLAying me)'' (CHR ''['' # ''pLAy'' @ '']'')" by blast
  from known_keyword_confirmed[OF h1 h2 h3 h4'] h1 h2 h3 h4 show ?thesis by blast
qed

section \<open>Claims about parse_csv_row\<close>

text \<open>
  C3.  For every row: when the stripped \<open>Name\<close> or the stripped \<open>Collector Number\<close> is
  empty, \<open>parse_csv_row\<close> returns no record; otherwise it returns one record, whose
  \<open>id\<close> is the stripped \<open>Collector Number\<close> and whose \<open>name\<close> is the stripped
  \<open>Name\<close>, both non-empty.
\<close>

theorem required_fields:
  "(py_strip (row_get row ''Name'') = [] \<or> py_strip (row_get row ''Collector Number'') = []
      \<longrightarrow> parse_csv_row row = None)
   \<and> (py_strip (row_get row ''Name'') \<noteq> [] \<and> py_strip (row_get row ''Collector Number'') \<noteq> []
      \<longrightarrow> (\<exists>crd. parse_csv_row row = Some crd
             \<and> card_id crd = py_strip (row_get row ''Collector Number'')
             \<and> name crd = py_strip (row_get row ''Name'')
             \<and> card_id crd \<noteq> [] \<and> name crd \<noteq> []))"
proof (cases "parse_csv_row row")
  case None
  then show ?thesis using parse_csv_row_None_iff[of row] by simp
next
  case (Some crd)
  then have "\<not> (py_strip (row_get row ''Name'') = []
      \<or> py_strip (row_get row ''Collector Number'') = [])"
    using parse_csv_row_None_iff[of row] by simp
  then show ?thesis using Some parse_csv_row_Some(1,2)[OF Some] by simp
qed

theorem required_fields_witness:
  "py_strip (row_get [''Name'' \<mapsto> '' '', ''Collector Number'' \<mapsto> ''OGN-001''] ''Name'') = []
   \<and> parse_csv_row [''Name'' \<mapsto> '' '', ''Collector Number'' \<mapsto> ''OGN-001''] = None
   \<and> py_strip (row_get [''Name'' \<mapsto> '' Jinx '', ''Collector Number'' \<mapsto> ''OGN-001 ''] ''Name'') \<noteq> []
   \<and> py_strip (row_get [''Name'' \<mapsto> '' Jinx '', ''Collector Number'' \<mapsto> ''OGN-001 '']
        ''Collector Number'') \<noteq> []
   \<and> (\<exists>crd. parse_csv_row [''Name'' \<mapsto> '' Jinx '', ''Collector Number'' \<mapsto> ''OGN-001 ''] = Some crd
         \<and> card_id crd = ''OGN-001'' \<and> name crd = ''Jinx'')"
proof -
  let ?r1 = "[''Name'' \<mapsto> '' '', ''Collector Number'' \<mapsto> ''OGN-001'']"
  let ?r2 = "[''Name'' \<mapsto> '' Jinx '', ''Collector Number'' \<mapsto> ''OGN-001 '']"
  have a: "py_strip (row_get ?r1 ''Name'') = []" by code_simp
  have b: "py_strip (row_get ?r2 ''Name'') = ''Jinx''" by code_simp
  have c: "py_strip (row_get ?r2 ''Collector Number'') = ''OGN-001''" by code_simp
  from required_fields[of ?r1] a have "parse_csv_row ?r1 = None" by blast
  moreover from required_fields[of ?r2] b c
  have "\<exists>crd. parse_csv_row ?r2 = Some crd \<and> card_id crd = ''OGN-001'' \<and> name crd = ''Jinx''"
    by auto
  ultimately show ?thesis using a b c by simp
qed

text \<open>
  C4.  For every row that is not skipped, the \<open>domain\<close> of the record is the one the
  specification describes: \<open>Domain 1\<close> and \<open>Domain 2\<close> stripped and capitalised, a value
  that is empty or \<open>nan\<close> in any letter case left out, the rest joined by a comma and a
  space in that order, and \<open>Colorless\<close> when none is left.  So it is never empty, and
  \<open>fire\<close> with \<open>water\<close> gives \<open>Fire, Water\<close>.
\<close>

theorem domain_derivation:
  assumes "parse_csv_row row = Some crd"
  shows "domain_str crd = spec_domain (row_get row ''Domain 1'') (row_get row ''Domain 2'')
       \<and> domain_str crd \<noteq> []
       \<and> (row_get row ''Domain 1'' = ''fire'' \<and> row_get row ''Domain 2'' = ''water''
            \<longrightarrow> domain_str crd = ''Fire, Water'')"
proof -
  have "spec_domain ''fire'' ''water'' = ''Fire, Water''" by code_simp
  then show ?thesis
    using parse_csv_row_Some(3)[OF assms] build_domain_spec[of row] build_domain_not_empty[of row]
    by auto
qed

theorem domain_derivation_witness:
  "(\<exists>crd. parse_csv_row [''Name'' \<mapsto> ''Jinx'', ''Collector Number'' \<mapsto> ''OGN-001'',
                         ''Domain 1'' \<mapsto> ''fire'', ''Domain 2'' \<mapsto> ''water''] = Some crd
          \<and> domain_str crd = ''Fire, Water'')"
proof -
  let ?r = "[''Name'' \<mapsto> ''Jinx'', ''Collector Number'' \<mapsto> ''OGN-001'',
             ''Domain 1'' \<mapsto> ''fire'', ''Domain 2'' \<mapsto> ''water'']"
  have "parse_csv_row ?r \<noteq> None" by code_simp
  then obtain crd where h: "parse_csv_row ?r = Some crd" by blast
  have d: "row_get ?r ''Domain 1'' = ''fire'' \<and> row_get ?r ''Domain 2'' = ''water''" by code_simp
  from domain_derivation[OF h] d have "domain_str crd = ''Fire, Water''" by blast
  with h show ?thesis by blast
qed

text \<open>
  C5.  For every row that is not skipped, \<open>stats.power\<close> comes from the stripped
  \<open>Power\<close> field as the specification describes: nothing for the empty string and for
  \<open>-\<close>; the upper-case string when that consists of the letter \<open>C\<close> only; otherwise the
  number when \<open>float\<close> accepts the string, and the string itself when it does not.  So
  \<open>CC\<close> gives the string \<open>CC\<close>, \<open>3\<close> gives the number three and \<open>X\<close>
  gives the string \<open>X\<close>.
\<close>

theorem power_coercion:
  assumes "parse_csv_row row = Some crd"
  shows "power_val (stats crd) = spec_power (py_strip (row_get row ''Power''))
       \<and> (py_strip (row_get row ''Power'') = ''CC''
            \<longrightarrow> power_val (stats crd) = Some (PowerStr ''CC''))
       \<and> (py_strip (row_get row ''Power'') = ''3''
            \<longrightarrow> power_val (stats crd) = Some (PowerNum (PyNum False 3 0)))
       \<and> (py_strip (row_get row ''Power'') = ''X''
            \<longrightarrow> power_val (stats crd) = Some (PowerStr ''X''))"
proof -
  have "spec_power ''CC'' = Some (PowerStr ''CC'')" by code_simp
  moreover have "spec_power ''3'' = Some (PowerNum (PyNum False 3 0))" by code_simp
  moreover have "spec_power ''X'' = Some (PowerStr ''X'')" by code_simp
  ultimately show ?thesis
    using parse_csv_row_Some(7)[OF assms] parse_power_spec by simp
qed

theorem power_coercion_witness:
  "(\<exists>crd. parse_csv_row [''Name'' \<mapsto> ''Jinx'', ''Collector Number'' \<mapsto> ''1'', ''Power'' \<mapsto> '' cc ''] = Some crd
          \<and> power_val (stats crd) = Some (PowerStr ''CC''))
   \<and> (\<exists>crd. parse_csv_row [''Name'' \<mapsto> ''Jinx'', ''Collector Number'' \<mapsto> ''1'', ''Power'' \<mapsto> ''3''] = Some crd
          \<and> power_val (stats crd) = Some (PowerNum (PyNum False 3 0)))
   \<and> (\<exists>crd. parse_csv_row [''Name'' \<mapsto> ''Jinx'', ''Collector Number'' \<mapsto> ''1'', ''Power'' \<mapsto> ''X''] = Some crd
          \<and> power_val (stats crd) = Some (PowerStr ''X''))"
proof -
  let ?r1 = "[''Name'' \<mapsto> ''Jinx'', ''Collector Number'' \<mapsto> ''1'', ''Power'' \<mapsto> '' cc '']"
  let ?r2 = "[''Name'' \<mapsto> ''Jinx'', ''Collector Number'' \<mapsto> ''1'', ''Power'' \<mapsto> ''3'']"
  let ?r3 = "[''Name'' \<mapsto> ''Jinx'', ''Collector Number'' \<mapsto> ''1'', ''Power'' \<mapsto> ''X'']"
  have "parse_csv_row ?r1 \<noteq> None" by code_simp
  then obtain c1 where h1: "parse_csv_row ?r1 = Some c1" by blast
  have "parse_csv_row ?r2 \<noteq> None" by code_simp
  then obtain c2 where h2: "parse_csv_row ?r2 = Some c2" by blast
  have "parse_csv_row ?r3 \<noteq> None" by code_simp
  then obtain c3 where h3: "parse_csv_row ?r3 = Some c3" by blast
  have p1: "spec_power (py_strip (row_get ?r1 ''Power'')) = Some (PowerStr ''CC'')" by code_simp
  have p2: "py_strip (row_get ?r2 ''Power'') = ''3''" by code_simp
  have p3: "py_strip (row_get ?r3 ''Power'') = ''X''" by code_simp
  from power_coercion[OF h1] p1 have "power_val (stats c1) = Some (PowerStr ''CC'')" by simp
  moreover from power_coercion[OF h2] p2
  have "power_val (stats c2) = Some (PowerNum (PyNum False 3 0))" by blast
  moreover from power_coercion[OF h3] p3 have "power_val (stats c3) = Some (PowerStr ''X'')" by blast
  ultimately show ?thesis using h1 h2 h3 by blast
qed

text \<open>
  C8.  For every row that is not skipped, \<open>stats.energy\<close> and \<open>stats.might\<close> come from
  the stripped \<open>Energy\<close> and \<open>Might\<close> fields: nothing for the empty string and for
  \<open>-\<close>, otherwise what \<open>float\<close> returns, and nothing when \<open>float\<close> raises
  \<open>ValueError\<close>.  The error is caught in \<open>parse_stat\<close>; \<open>parse_csv_row\<close> is a total
  function whose only results are a record or no record.
\<close>

theorem stat_coercion:
  assumes "parse_csv_row row = Some crd"
  shows "energy_val (stats crd) = spec_stat (py_strip (row_get row ''Energy''))
       \<and> might_val (stats crd) = spec_stat (py_strip (row_get row ''Might''))
       \<and> (py_float (py_strip (row_get row ''Energy'')) = None \<longrightarrow> energy_val (stats crd) = None)
       \<and> (py_float (py_strip (row_get row ''Might'')) = None \<longrightarrow> might_val (stats crd) = None)"
  using parse_csv_row_Some(5,6)[OF assms] by (simp add: parse_stat_spec spec_stat_def)

theorem stat_coercion_witness:
  "(\<exists>crd. parse_csv_row [''Name'' \<mapsto> ''Jinx'', ''Collector Number'' \<mapsto> ''1'',
                         ''Energy'' \<mapsto> '' 3 '', ''Might'' \<mapsto> ''two''] = Some crd
          \<and> py_float (py_strip ''two'') = None
          \<and> energy_val (stats crd) = Some (PyNum False 3 0)
          \<and> might_val (stats crd) = None)"
proof -
  let ?r = "[''Name'' \<mapsto> ''Jinx'', ''Collector Number'' \<mapsto> ''1'',
             ''Energy'' \<mapsto> '' 3 '', ''Might'' \<mapsto> ''two'']"
  have "parse_csv_row ?r \<noteq> None" by code_simp
  then obtain crd where h: "parse_csv_row ?r = Some crd" by blast
  have e: "spec_stat (py_strip (row_get ?r ''Energy'')) = Some (PyNum False 3 0)" by code_simp
  have m: "py_float (py_strip (row_get ?r ''Might'')) = None" by code_simp
  have f: "py_float (py_strip ''two'') = None" by code_simp
  from stat_coercion[OF h] have "energy_val (stats crd) = spec_stat (py_strip (row_get ?r ''Energy''))"
    by blast
  with e have "energy_val (stats crd) = Some (PyNum False 3 0)" by simp
  moreover from stat_coercion[OF h] m have "might_val (stats crd) = None" by blast
  ultimately show ?thesis using h f by blast
qed

text \<open>
  C10.  The coercion of \<open>Energy\<close> and \<open>Might\<close> accepts the literals that are not
  finite: when the stripped field is \<open>nan\<close>, \<open>inf\<close> or \<open>infinity\<close> in any letter
  case, \<open>float\<close> succeeds and the stat is present, with the value \<open>nan\<close> or the
  positive infinity.
  The fields for domain, subtypes, supertypes and tags treat \<open>nan\<close> as absent: two
  \<open>nan\<close> domains give \<open>Colorless\<close>, no subtype is \<open>nan\<close>, and a \<open>nan\<close>
  in \<open>supertypes\<close> or \<open>Tags\<close> leaves the key out.
\<close>

theorem non_finite_stats:
  assumes "parse_csv_row row = Some crd"
  shows "(py_lower (py_strip (row_get row ''Energy'')) \<in> set [''nan'', ''inf'', ''infinity'']
            \<longrightarrow> (\<exists>x. energy_val (stats crd) = Some x \<and> (x = PyNan \<or> x = PyInf False)))
       \<and> (py_lower (py_strip (row_get row ''Might'')) \<in> set [''nan'', ''inf'', ''infinity'']
            \<longrightarrow> (\<exists>x. might_val (stats crd) = Some x \<and> (x = PyNan \<or> x = PyInf False)))
       \<and> (py_lower (py_strip (row_get row ''Domain 1'')) = ''nan''
            \<and> py_lower (py_strip (row_get row ''Domain 2'')) = ''nan''
            \<longrightarrow> domain_str crd = ''Colorless'')
       \<and> ''nan'' \<notin> set (get_subtypes row)
       \<and> (py_lower (py_strip (row_get row ''supertypes'')) = ''nan'' \<longrightarrow> supertypes crd = None)
       \<and> (py_lower (py_strip (row_get row ''Tags'')) = ''nan'' \<longrightarrow> tags crd = None)"
proof -
  have stat: "\<exists>x. parse_stat v = Some x \<and> (x = PyNan \<or> x = PyInf False)"
    if "py_lower v \<in> set [''nan'', ''inf'', ''infinity'']" for v
  proof -
    from that have l: "py_lower v = ''nan'' \<or> py_lower v = ''inf'' \<or> py_lower v = ''infinity''"
      by simp
    from py_float_lower_non_finite[OF l] obtain x
      where x: "py_float v = Some x" "(x = PyNan \<or> x = PyInf False)" by blast
    from l have "v \<noteq> []" "v \<noteq> ''-''" by (auto simp add: py_lower_def)
    with x show ?thesis by (simp add: parse_stat_def)
  qed
  have dom: "build_domain row = ''Colorless''"
    if "py_lower (py_strip (row_get row ''Domain 1'')) = ''nan''"
      and "py_lower (py_strip (row_get row ''Domain 2'')) = ''nan''"
    using that
    by (simp add: build_domain_def get_domain_eq not_nan_iff py_lower_capitalize Let_def)
  show ?thesis
    using parse_csv_row_Some[OF assms] stat dom get_subtypes_no_nan[of row]
    by (simp add: not_nan_iff)
qed

theorem non_finite_stats_witness:
  "(\<exists>crd. parse_csv_row [''Name'' \<mapsto> ''Jinx'', ''Collector Number'' \<mapsto> ''1'',
                         ''Energy'' \<mapsto> ''NaN'', ''Might'' \<mapsto> ''Infinity'',
                         ''Domain 1'' \<mapsto> ''nan'', ''Domain 2'' \<mapsto> ''NAN'',
                         ''supertypes'' \<mapsto> ''nan'', ''Tags'' \<mapsto> ''NaN''] = Some crd
          \<and> energy_val (stats crd) = Some PyNan
          \<and> might_val (stats crd) = Some (PyInf False)
          \<and> domain_str crd = ''Colorless''
          \<and> supertypes crd = None
          \<and> tags crd = None)"
proof -
  let ?r = "[''Name'' \<mapsto> ''Jinx'', ''Collector Number'' \<mapsto> ''1'',
             ''Energy'' \<mapsto> ''NaN'', ''Might'' \<mapsto> ''Infinity'',
             ''Domain 1'' \<mapsto> ''nan'', ''Domain 2'' \<mapsto> ''NAN'',
             ''supertypes'' \<mapsto> ''nan'', ''Tags'' \<mapsto> ''NaN'']"
  have "parse_csv_row ?r \<noteq> None" by code_simp
  then obtain crd where h: "parse_csv_row ?r = Some crd" by blast
  have e: "py_lower (py_strip (row_get ?r ''Energy'')) \<in> set [''nan'', ''inf'', ''infinity'']"
    by code_simp
  have m: "py_lower (py_strip (row_get ?r ''Might'')) \<in> set [''nan'', ''inf'', ''infinity'']"
    by code_simp
  have d: "py_lower (py_strip (row_get ?r ''Domain 1'')) = ''nan''
     \<and> py_lower (py_strip (row_get ?r ''Domain 2'')) = ''nan''" by code_simp
  have s: "py_lower (py_strip (row_get ?r ''supertypes'')) = ''nan''" by code_simp
  have t: "py_lower (py_strip (row_get ?r ''Tags'')) = ''nan''" by code_simp
  have ev: "parse_stat (py_strip (row_get ?r ''Energy'')) = Some PyNan" by code_simp
  have mv: "parse_stat (py_strip (row_get ?r ''Might'')) = Some (PyInf False)" by code_simp
  note c = non_finite_stats[OF h]
  from c d have "domain_str crd = ''Colorless''" by blast
  moreover from c s have "supertypes crd = None" by blast
  moreover from c t have "tags crd = None" by blast
  moreover from c e obtain x where "energy_val (stats crd) = Some x" "(x = PyNan \<or> x = PyInf False)" by blast
  moreover have "energy_val (stats crd) = Some PyNan"
    using parse_csv_row_Some(5)[OF h] ev by simp
  moreover have "might_val (stats crd) = Some (PyInf False)"
    using parse_csv_row_Some(6)[OF h] mv by simp
  ultimately show ?thesis using h by blast
qed

section \<open>Claims about load_images and main\<close>

text \<open>
  C7.  A URL that starts with a slash is made absolute by the prefix
  \<open>https://riftdecks.com\<close>, so \<open>/img/foo.png\<close> becomes
  \<open>https://riftdecks.com/img/foo.png\<close>.  A row of the image table whose stripped name
  and URL are not empty enters its URL under its name, and the last such row for a name
  wins: it is what the index holds when no later row with that name has a URL.  Every
  card that \<open>main\<close> emits has \<open>image_url\<close> equal to what the index holds for its
  name, and no \<open>image_url\<close> when the index does not hold its name.
\<close>

theorem image_handling:
  "absolute_url ''/img/foo.png'' = ''https://riftdecks.com/img/foo.png''
   \<and> (startswith u ''/'' \<longrightarrow> absolute_url u = ''https://riftdecks.com'' @ u)
   \<and> (py_strip (row_get r ''Name'') \<noteq> [] \<and> py_strip (row_get r ''Card Image URL'') \<noteq> []
       \<and> (\<forall>r' \<in> set post. py_strip (row_get r' ''Name'') = py_strip (row_get r ''Name'')
             \<longrightarrow> py_strip (row_get r' ''Card Image URL'') = [])
       \<longrightarrow> load_images (pre @ r # post) (py_strip (row_get r ''Name''))
             = Some (absolute_url (py_strip (row_get r ''Card Image URL''))))
   \<and> (\<forall>crd \<in> set (collect_cards images rows). image_url crd = images (name crd))"
proof -
  have a: "absolute_url ''/img/foo.png'' = ''https://riftdecks.com/img/foo.png''" by code_simp
  have b: "startswith u ''/'' \<longrightarrow> absolute_url u = ''https://riftdecks.com'' @ u"
    by (simp add: absolute_url_def)
  have c: "load_images (pre @ r # post) (py_strip (row_get r ''Name''))
             = Some (absolute_url (py_strip (row_get r ''Card Image URL'')))"
    if v: "py_strip (row_get r ''Name'') \<noteq> []" "py_strip (row_get r ''Card Image URL'') \<noteq> []"
      and l: "\<forall>r' \<in> set post. py_strip (row_get r' ''Name'') = py_strip (row_get r ''Name'')
             \<longrightarrow> py_strip (row_get r' ''Card Image URL'') = []"
  proof -
    have "load_images (pre @ r # post)
            = foldl image_step (image_step (load_images pre) r) post"
      by (simp add: load_images_def)
    then have "load_images (pre @ r # post) (py_strip (row_get r ''Name''))
            = image_step (load_images pre) r (py_strip (row_get r ''Name''))"
      using image_scan_unchanged[OF l] by simp
    then show ?thesis using v by (simp add: image_step_def Let_def)
  qed
  have d: "\<forall>crd \<in> set (collect_cards images rows). image_url crd = images (name crd)"
    unfolding collect_cards_def by (rule collect_scan_images) simp
  from a b c d show ?thesis by blast
qed

theorem image_handling_witness:
  "startswith ''/img/foo.png'' ''/''
   \<and> absolute_url ''/img/foo.png'' = ''https://riftdecks.com'' @ ''/img/foo.png''
   \<and> load_images [[''Name'' \<mapsto> ''Jinx'', ''Card Image URL'' \<mapsto> ''/img/old.png''],
                   [''Name'' \<mapsto> '' Jinx '', ''Card Image URL'' \<mapsto> '' /img/foo.png ''],
                   [''Name'' \<mapsto> ''Jinx'', ''Card Image URL'' \<mapsto> '' '']] ''Jinx''
        = Some ''https://riftdecks.com/img/foo.png''
   \<and> map image_url
         (collect_cards
            (load_images [[''Name'' \<mapsto> ''Jinx'', ''Card Image URL'' \<mapsto> ''/img/old.png''],
                          [''Name'' \<mapsto> '' Jinx '', ''Card Image URL'' \<mapsto> '' /img/foo.png ''],
                          [''Name'' \<mapsto> ''Jinx'', ''Card Image URL'' \<mapsto> '' '']])
            [[''Name'' \<mapsto> ''Jinx'', ''Collector Number'' \<mapsto> ''1''],
             [''Name'' \<mapsto> ''Vi'', ''Collector Number'' \<mapsto> ''2'']])
        = [Some ''https://riftdecks.com/img/foo.png'', None]"
proof -
  let ?i1 = "[''Name'' \<mapsto> ''Jinx'', ''Card Image URL'' \<mapsto> ''/img/old.png'']"
  let ?i2 = "[''Name'' \<mapsto> '' Jinx '', ''Card Image URL'' \<mapsto> '' /img/foo.png '']"
  let ?i3 = "[''Name'' \<mapsto> ''Jinx'', ''Card Image URL'' \<mapsto> '' '']"
  let ?im = "load_images [?i1, ?i2, ?i3]"
  let ?rows = "[[''Name'' \<mapsto> ''Jinx'', ''Collector Number'' \<mapsto> ''1''],
                [''Name'' \<mapsto> ''Vi'', ''Collector Number'' \<mapsto> ''2'']]"
  note th = image_handling[where u = "''/img/foo.png''" and r = ?i2 and post = "[?i3]"
      and pre = "[?i1]" and images = ?im and rows = ?rows]
  have s: "startswith ''/img/foo.png'' ''/''" by code_simp
  have n: "py_strip (row_get ?i2 ''Name'') = ''Jinx''" by code_simp
  have u: "py_strip (row_get ?i2 ''Card Image URL'') = ''/img/foo.png''" by code_simp
  have l: "py_strip (row_get ?i3 ''Card Image URL'') = []" by code_simp
  from th s have a: "absolute_url ''/img/foo.png'' = ''https://riftdecks.com'' @ ''/img/foo.png''"
    by blast
  from th have "py_strip (row_get ?i2 ''Name'') \<noteq> [] \<and> py_strip (row_get ?i2 ''Card Image URL'') \<noteq> []
       \<and> (\<forall>r' \<in> set [?i3]. py_strip (row_get r' ''Name'') = py_strip (row_get ?i2 ''Name'')
             \<longrightarrow> py_strip (row_get r' ''Card Image URL'') = [])
       \<longrightarrow> load_images ([?i1] @ ?i2 # [?i3]) (py_strip (row_get ?i2 ''Name''))
             = Some (absolute_url (py_strip (row_get ?i2 ''Card Image URL'')))"
    by blast
  with n u l a have j: "?im ''Jinx'' = Some ''https://riftdecks.com/img/foo.png''" by simp
  have v: "?im ''Vi'' = None" by code_simp
  have names: "map name (collect_cards ?im ?rows) = [''Jinx'', ''Vi'']" by code_simp
  from th have "\<forall>crd \<in> set (collect_cards ?im ?rows). image_url crd = ?im (name crd)" by blast
  then have "map image_url (collect_cards ?im ?rows) = map (\<lambda>crd. ?im (name crd)) (collect_cards ?im ?rows)"
    by (intro map_cong) simp_all
  also have "\<dots> = map ?im (map name (collect_cards ?im ?rows))" by simp
  also have "\<dots> = [Some ''https://riftdecks.com/img/foo.png'', None]"
    unfolding names using j v by simp
  finally show ?thesis using s a j by simp
qed

end
